theory Spec2Isabelle
  imports Main
begin

section \<open>The Composite file system (compositePattern_fileSystem.ts)\<close>

text \<open>
  The sample builds a tree of objects that refer to each other: a Folder holds references to
  its children, the client keeps its own references to the same objects and mutates them
  after they were added to a parent, and \<open>remove\<close> compares references, not names.
  The model therefore keeps the objects in a store: a reference is an address, an object is
  a File or a Folder whose children are addresses, and every method takes the state and
  returns the new one. The console is the list of lines printed so far.
\<close>

subsection \<open>Objects, store and console\<close>

type_synonym ref = nat

datatype obj =
    File string
  | Folder string "ref list"

record state =
  heap :: "ref \<rightharpoonup> obj"
  next_ref :: ref
  console :: "string list"

text \<open>
  Two ways a call can end without returning. \<open>RangeError\<close> is what the runtime raises when
  the call stack is exhausted; the recursion of \<open>display\<close> is bounded by nothing else.
  \<open>TypeError\<close> stands for a method called on a reference that holds no object of the class
  the method belongs to, which the type checker of the source excludes.
\<close>

datatype error = RangeError | TypeError

definition init_state :: state where
  "init_state = \<lparr>heap = Map.empty, next_ref = 0, console = []\<rparr>"

definition and_then :: "error + 'a \<Rightarrow> ('a \<Rightarrow> error + 'b) \<Rightarrow> error + 'b" where
  "and_then m f = (case m of Inl e \<Rightarrow> Inl e | Inr v \<Rightarrow> f v)"

definition console_log :: "string \<Rightarrow> state \<Rightarrow> state" where
  "console_log line s = s\<lparr>console := console s @ [line]\<rparr>"

text \<open>A parameter with a default value: \<open>None\<close> is the call that leaves the argument out.\<close>

definition default_arg :: "'a \<Rightarrow> 'a option \<Rightarrow> 'a" where
  "default_arg d a = (case a of None \<Rightarrow> d | Some v \<Rightarrow> v)"

subsection \<open>Array operations used by Folder\<close>

definition push :: "'a list \<Rightarrow> 'a \<Rightarrow> 'a list" where
  "push xs x = xs @ [x]"

fun indexOf_from :: "'a list \<Rightarrow> 'a \<Rightarrow> int \<Rightarrow> int" where
  "indexOf_from [] x k = - 1"
| "indexOf_from (y # ys) x k = (if y = x then k else indexOf_from ys x (k + 1))"

definition indexOf :: "'a list \<Rightarrow> 'a \<Rightarrow> int" where
  "indexOf xs x = indexOf_from xs x 0"

text \<open>\<open>splice(start, deleteCount)\<close>: a negative start counts from the end, and both ends are
  clamped to the array.\<close>

definition splice_arr :: "'a list \<Rightarrow> int \<Rightarrow> nat \<Rightarrow> 'a list" where
  "splice_arr xs start deleteCount =
     (let len = int (length xs);
          from = (if start < 0 then max (len + start) 0 else min start len)
      in take (nat from) xs @ drop (nat from + deleteCount) xs)"

fun forEach :: "'a list \<Rightarrow> ('a \<Rightarrow> state \<Rightarrow> error + state) \<Rightarrow> state \<Rightarrow> error + state" where
  "forEach [] callback s = Inr s"
| "forEach (x # xs) callback s =
     (case callback x s of Inl e \<Rightarrow> Inl e | Inr s' \<Rightarrow> forEach xs callback s')"

subsection \<open>File (leaf)\<close>

definition new_File :: "string \<Rightarrow> state \<Rightarrow> ref \<times> state" where
  "new_File name s =
     (next_ref s,
      s\<lparr>heap := (heap s)(next_ref s \<mapsto> File name), next_ref := Suc (next_ref s)\<rparr>)"

definition File_display :: "string \<Rightarrow> string option \<Rightarrow> state \<Rightarrow> error + state" where
  "File_display name indentation s =
     (let indentation = default_arg [] indentation
      in Inr (console_log (indentation @ ''- File: '' @ name) s))"

subsection \<open>Folder (composite)\<close>

definition new_Folder :: "string \<Rightarrow> state \<Rightarrow> ref \<times> state" where
  "new_Folder name s =
     (next_ref s,
      s\<lparr>heap := (heap s)(next_ref s \<mapsto> Folder name []), next_ref := Suc (next_ref s)\<rparr>)"

definition getName :: "ref \<Rightarrow> state \<Rightarrow> error + string" where
  "getName this s =
     (case heap s this of
        None \<Rightarrow> Inl TypeError
      | Some (File name) \<Rightarrow> Inr name
      | Some (Folder name children) \<Rightarrow> Inr name)"

definition add :: "ref \<Rightarrow> ref \<Rightarrow> state \<Rightarrow> error + state" where
  "add this component s =
     (case heap s this of
        Some (Folder name children) \<Rightarrow>
          Inr (s\<lparr>heap := (heap s)(this \<mapsto> Folder name (push children component))\<rparr>)
      | _ \<Rightarrow> Inl TypeError)"

definition remove_child :: "ref \<Rightarrow> ref \<Rightarrow> state \<Rightarrow> error + state" where
  "remove_child this component s =
     (case heap s this of
        Some (Folder name children) \<Rightarrow>
          (let index = indexOf children component
           in if index \<noteq> - 1
              then Inr (s\<lparr>heap := (heap s)(this \<mapsto> Folder name (splice_arr children index 1))\<rparr>)
              else Inr s)
      | _ \<Rightarrow> Inl TypeError)"

text \<open>
  \<open>Folder.display\<close> prints its header and hands every child to \<open>child.display\<close>, which is
  resolved by the class of the child: the parameter \<open>child_display\<close> is that dynamic call.
\<close>

definition Folder_display ::
  "(ref \<Rightarrow> string option \<Rightarrow> state \<Rightarrow> error + state) \<Rightarrow>
   string \<Rightarrow> ref list \<Rightarrow> string option \<Rightarrow> state \<Rightarrow> error + state" where
  "Folder_display child_display name children indentation s =
     (let indentation = default_arg [] indentation;
          s = console_log (indentation @ ''+ Folder: '' @ name) s
      in forEach children (\<lambda>child. child_display child (Some (indentation @ ''  ''))) s)"

text \<open>
  The call \<open>component.display(indentation)\<close> through the interface. The first argument is
  the number of nested \<open>display\<close> calls the call stack still has room for.
\<close>

fun display :: "nat \<Rightarrow> ref \<Rightarrow> string option \<Rightarrow> state \<Rightarrow> error + state" where
  "display 0 this indentation s = Inl RangeError"
| "display (Suc room) this indentation s =
     (case heap s this of
        None \<Rightarrow> Inl TypeError
      | Some (File name) \<Rightarrow> File_display name indentation s
      | Some (Folder name children) \<Rightarrow>
          Folder_display (\<lambda>child ind s'. display room child ind s') name children indentation s)"

subsection \<open>Client code\<close>

text \<open>
  The script of the sample, in three stages: the construction of the objects and of the
  hierarchy, the first \<open>display\<close> of the root under its banner, and the removal of
  \<open>file4\<close> followed by the second \<open>display\<close>. The constants of the script are kept in a
  record, since the later stages use them.
\<close>

record vars =
  file1 :: ref
  file2 :: ref
  file3 :: ref
  file4 :: ref
  folder1 :: ref
  folder2 :: ref
  rootFolder :: ref

definition client_build :: "error + vars \<times> state" where
  "client_build =
     (let s = init_state;
          (file1, s) = new_File ''file1.txt'' s;
          (file2, s) = new_File ''file2.txt'' s;
          (file3, s) = new_File ''file3.txt'' s;
          (file4, s) = new_File ''file4.txt'' s;
          (folder1, s) = new_Folder ''Documents'' s;
          (folder2, s) = new_Folder ''Images'' s;
          (rootFolder, s) = new_Folder ''Root'' s
      in and_then (add folder1 file1 s) (\<lambda>s.
         and_then (add folder1 file2 s) (\<lambda>s.
         and_then (add folder1 file4 s) (\<lambda>s.
         and_then (add folder2 file3 s) (\<lambda>s.
         and_then (add rootFolder folder1 s) (\<lambda>s.
         and_then (add rootFolder folder2 s) (\<lambda>s.
         Inr (\<lparr>file1 = file1, file2 = file2, file3 = file3, file4 = file4,
               folder1 = folder1, folder2 = folder2, rootFolder = rootFolder\<rparr>, s))))))))"

definition client_before :: "nat \<Rightarrow> vars \<times> state \<Rightarrow> error + vars \<times> state" where
  "client_before room = (\<lambda>(v, s).
     (let s = console_log ''=== File System Before Removal ==='' s
      in and_then (display room (rootFolder v) None s) (\<lambda>s. Inr (v, s))))"

definition client_after :: "nat \<Rightarrow> vars \<times> state \<Rightarrow> error + vars \<times> state" where
  "client_after room = (\<lambda>(v, s).
     and_then (remove_child (folder1 v) (file4 v) s) (\<lambda>s.
     (let s = console_log ''File System After Removal of file4.txt'' s
      in and_then (display room (rootFolder v) None s) (\<lambda>s. Inr (v, s)))))"

text \<open>What a run has written to the console when it ends.\<close>

definition printed :: "error + vars \<times> state \<Rightarrow> error + string list" where
  "printed m = (case m of Inl e \<Rightarrow> Inl e | Inr (v, s) \<Rightarrow> Inr (console s))"

section \<open>The tree a store holds\<close>

text \<open>
  The specification speaks of a tree of Files and Folders, of its nodes, of their depth and
  of pre-order. These notions are not in the source; they are defined here, from the
  specification's words, to state what \<open>display\<close> does. A \<open>tree\<close> is the unfolding of the
  store from one reference: every node carries the reference of the object it stands for.
  A store that holds a cycle has no unfolding, and a store in which an object has two
  parents, or occurs twice under one parent, unfolds to a tree in which its reference
  occurs more than once.
\<close>

datatype tree =
    Leaf ref string
  | Node ref string "tree list"

fun root :: "tree \<Rightarrow> ref" where
  "root (Leaf r n) = r"
| "root (Node r n ts) = r"

text \<open>The number of nodes on the longest path from the root down.\<close>

fun height :: "tree \<Rightarrow> nat" where
  "height (Leaf r n) = 1"
| "height (Node r n ts) = Suc (fold max (map height ts) 0)"

fun represents :: "(ref \<rightharpoonup> obj) \<Rightarrow> tree \<Rightarrow> bool" where
  "represents h (Leaf r n) = (h r = Some (File n))"
| "represents h (Node r n ts) =
     (h r = Some (Folder n (map root ts)) \<and> list_all (represents h) ts)"

text \<open>Pre-order: the parent first, then the children's subtrees in sequence order; every
  node is paired with its depth below the root.\<close>

fun preorder :: "nat \<Rightarrow> tree \<Rightarrow> (ref \<times> nat) list" where
  "preorder d (Leaf r n) = [(r, d)]"
| "preorder d (Node r n ts) = (r, d) # concat (map (preorder (Suc d)) ts)"

text \<open>The text of a node's line after its indentation.\<close>

definition label :: "(ref \<rightharpoonup> obj) \<Rightarrow> ref \<Rightarrow> string" where
  "label h r =
     (case h r of
        None \<Rightarrow> []
      | Some (File name) \<Rightarrow> ''- File: '' @ name
      | Some (Folder name children) \<Rightarrow> ''+ Folder: '' @ name)"

text \<open>The indentation of depth \<open>d\<close>: two spaces per level.\<close>

definition spaces :: "nat \<Rightarrow> string" where
  "spaces d = concat (replicate d ''  '')"

definition visit_lines :: "(ref \<rightharpoonup> obj) \<Rightarrow> string \<Rightarrow> (ref \<times> nat) list \<Rightarrow> string list" where
  "visit_lines h ind vs = map (\<lambda>(r, d). ind @ spaces d @ label h r) vs"

text \<open>The objects of a store that can be reached from \<open>r\<close> through child sequences.\<close>

inductive reach :: "(ref \<rightharpoonup> obj) \<Rightarrow> ref \<Rightarrow> ref \<Rightarrow> bool" for h r where
  reach_root: "reach h r r"
| reach_child: "reach h r p \<Longrightarrow> h p = Some (Folder n cs) \<Longrightarrow> x \<in> set cs \<Longrightarrow> reach h r x"

section \<open>Auxiliary facts\<close>

subsection \<open>Arrays\<close>

lemma indexOf_from_absent: "x \<notin> set xs \<Longrightarrow> indexOf_from xs x k = - 1"
  by (induction xs arbitrary: k) auto

lemma indexOf_from_present:
  "x \<in> set xs \<Longrightarrow> 0 \<le> k \<Longrightarrow>
   k \<le> indexOf_from xs x k \<and> indexOf_from xs x k < k + int (length xs) \<and>
   take (nat (indexOf_from xs x k - k)) xs @ drop (Suc (nat (indexOf_from xs x k - k))) xs
     = remove1 x xs"
proof (induction xs arbitrary: k)
  case Nil
  then show ?case by simp
next
  case (Cons y ys)
  show ?case
  proof (cases "y = x")
    case True
    then show ?thesis by simp
  next
    case False
    with Cons.prems have mem: "x \<in> set ys" by simp
    from Cons.prems have k1: "0 \<le> k + 1" by simp
    note ih = Cons.IH[OF mem k1]
    from ih have "nat (indexOf_from ys x (k + 1) - k) = Suc (nat (indexOf_from ys x (k + 1) - (k + 1)))"
      by linarith
    with ih False show ?thesis by auto
  qed
qed

lemma indexOf_absent: "x \<notin> set xs \<Longrightarrow> indexOf xs x = - 1"
  by (simp add: indexOf_def indexOf_from_absent)

lemma indexOf_present: "x \<in> set xs \<Longrightarrow> indexOf xs x \<noteq> - 1"
  using indexOf_from_present[of x xs 0] by (simp add: indexOf_def)

lemma splice_indexOf: "x \<in> set xs \<Longrightarrow> splice_arr xs (indexOf xs x) (Suc 0) = remove1 x xs"
  using indexOf_from_present[of x xs 0]
  by (simp add: indexOf_def splice_arr_def Let_def min_def)

lemma remove1_first: "x \<notin> set ys \<Longrightarrow> remove1 x (ys @ x # zs) = ys @ zs"
  by (simp add: remove1_append)

lemma forEach_append:
  "forEach (xs @ ys) f s = and_then (forEach xs f s) (forEach ys f)"
  by (induction xs arbitrary: s) (auto simp: and_then_def split: sum.splits)

subsection \<open>What a display call changes\<close>

lemma display_None: "display room this None s = display room this (Some []) s"
  by (cases room) (simp_all add: File_display_def Folder_display_def default_arg_def
      split: option.splits obj.splits)

lemma forEach_frame:
  assumes step: "\<And>x s s'. x \<in> set xs \<Longrightarrow> f x s = Inr s' \<Longrightarrow>
      \<exists>ls. s' = s\<lparr>console := console s @ ls\<rparr> \<and>
        (\<forall>s2. heap s2 = heap s \<longrightarrow> f x s2 = Inr (s2\<lparr>console := console s2 @ ls\<rparr>))"
  shows "forEach xs f s = Inr s' \<Longrightarrow>
      \<exists>ls. s' = s\<lparr>console := console s @ ls\<rparr> \<and>
        (\<forall>s2. heap s2 = heap s \<longrightarrow> forEach xs f s2 = Inr (s2\<lparr>console := console s2 @ ls\<rparr>))"
  using step
proof (induction xs arbitrary: s)
  case Nil
  then show ?case by (auto intro!: exI[of _ "[]"])
next
  case (Cons x xs)
  from Cons.prems(1) obtain s1 where s1: "f x s = Inr s1" and rest: "forEach xs f s1 = Inr s'"
    by (auto split: sum.splits)
  from Cons.prems(2)[OF _ s1] obtain l1 where
    l1: "s1 = s\<lparr>console := console s @ l1\<rparr>"
    and d1: "\<And>s2. heap s2 = heap s \<Longrightarrow> f x s2 = Inr (s2\<lparr>console := console s2 @ l1\<rparr>)"
    by auto
  from Cons.IH[OF rest] Cons.prems(2) obtain l2 where
    l2: "s' = s1\<lparr>console := console s1 @ l2\<rparr>"
    and d2: "\<And>s2. heap s2 = heap s1 \<Longrightarrow> forEach xs f s2 = Inr (s2\<lparr>console := console s2 @ l2\<rparr>)"
    by (metis list.set_intros(2))
  have "s' = s\<lparr>console := console s @ (l1 @ l2)\<rparr>"
    using l1 l2 by simp
  moreover have "forEach (x # xs) f s2 = Inr (s2\<lparr>console := console s2 @ (l1 @ l2)\<rparr>)"
    if "heap s2 = heap s" for s2
    using d1[OF that] d2[of "s2\<lparr>console := console s2 @ l1\<rparr>"] that l1 by simp
  ultimately show ?case by blast
qed

lemma display_frame:
  "display room this ind s = Inr s' \<Longrightarrow>
     \<exists>ls. s' = s\<lparr>console := console s @ ls\<rparr> \<and>
       (\<forall>s2. heap s2 = heap s \<longrightarrow> display room this ind s2 = Inr (s2\<lparr>console := console s2 @ ls\<rparr>))"
proof (induction room arbitrary: this ind s s')
  case 0
  then show ?case by simp
next
  case (Suc room)
  show ?case
  proof (cases "heap s this")
    case None
    with Suc.prems show ?thesis by simp
  next
    case (Some ob)
    show ?thesis
    proof (cases ob)
      case (File name)
      with Some Suc.prems show ?thesis
        by (auto simp: File_display_def console_log_def)
    next
      case (Folder name children)
      let ?hd = "default_arg [] ind @ ''+ Folder: '' @ name"
      let ?f = "\<lambda>child. display room child (Some (default_arg [] ind @ ''  ''))"
      from Suc.prems Some Folder
      have run: "forEach children ?f (console_log ?hd s) = Inr s'"
        by (simp add: Folder_display_def Let_def)
      from forEach_frame[where f = ?f, OF _ run] Suc.IH
      obtain ls where
        ls: "s' = (console_log ?hd s)\<lparr>console := console (console_log ?hd s) @ ls\<rparr>"
        and det: "\<And>s2. heap s2 = heap (console_log ?hd s) \<Longrightarrow>
              forEach children ?f s2 = Inr (s2\<lparr>console := console s2 @ ls\<rparr>)"
        by blast
      have "s' = s\<lparr>console := console s @ (?hd # ls)\<rparr>"
        using ls by (simp add: console_log_def)
      moreover have "display (Suc room) this ind s2 = Inr (s2\<lparr>console := console s2 @ (?hd # ls)\<rparr>)"
        if "heap s2 = heap s" for s2
        using det[of "console_log ?hd s2"] that Some Folder
        by (simp add: Folder_display_def console_log_def Let_def)
      ultimately show ?thesis by blast
    qed
  qed
qed

subsection \<open>Display on a tree\<close>

lemma fold_max_ge: "m \<le> fold max xs (m::nat)"
  by (induction xs arbitrary: m) (auto intro: order_trans[OF max.cobounded2])

lemma fold_max_mem: "x \<in> set xs \<Longrightarrow> x \<le> fold max xs (m::nat)"
  by (induction xs arbitrary: m) (auto intro: order_trans[OF max.cobounded1 fold_max_ge])

lemma height_child: "t \<in> set ts \<Longrightarrow> height t \<le> fold max (map height ts) 0"
  by (rule fold_max_mem) simp

lemma spaces_Suc: "spaces (Suc d) = spaces d @ ''  ''"
  by (induction d) (simp_all add: spaces_def)

lemma display_tree_aux:
  "represents (heap s) t \<Longrightarrow> height t \<le> room \<Longrightarrow>
   display room (root t) (Some (ind @ spaces d)) s =
     Inr (s\<lparr>console := console s @ visit_lines (heap s) ind (preorder d t)\<rparr>)"
proof (induction t arbitrary: room s d)
  case (Leaf r n)
  then show ?case
    by (cases room) (simp_all add: File_display_def default_arg_def console_log_def
        visit_lines_def label_def)
next
  case (Node r n ts)
  from Node.prems obtain k where room: "room = Suc k" by (cases room) auto
  from Node.prems have hr: "heap s r = Some (Folder n (map root ts))"
    and reps: "\<forall>t \<in> set ts. represents (heap s) t"
    by (simp_all add: list_all_iff)
  from Node.prems room have hts: "\<forall>t \<in> set ts. height t \<le> k"
    using height_child by fastforce
  have each: "\<And>t s'. t \<in> set ts \<Longrightarrow> heap s' = heap s \<Longrightarrow>
      display k (root t) (Some (ind @ spaces (Suc d))) s' =
        Inr (s'\<lparr>console := console s' @ visit_lines (heap s) ind (preorder (Suc d) t)\<rparr>)"
    using Node.IH reps hts by (metis)
  have loop: "\<And>s'. heap s' = heap s \<Longrightarrow> set us \<subseteq> set ts \<Longrightarrow>
      forEach (map root us) (\<lambda>child. display k child (Some (ind @ spaces (Suc d)))) s' =
        Inr (s'\<lparr>console := console s' @
               visit_lines (heap s) ind (concat (map (preorder (Suc d)) us))\<rparr>)" for us
  proof (induction us)
    case Nil
    then show ?case by (simp add: visit_lines_def)
  next
    case (Cons u us)
    then show ?case
      by (simp add: each visit_lines_def)
  qed
  show ?case
    using loop[of "console_log ((ind @ spaces d) @ ''+ Folder: '' @ n) s" ts] hr
    by (simp add: room Folder_display_def default_arg_def console_log_def
        visit_lines_def label_def spaces_Suc)
qed

lemma display_tree:
  "represents (heap s) t \<Longrightarrow> height t \<le> room \<Longrightarrow>
   display room (root t) (Some ind) s =
     Inr (s\<lparr>console := console s @ visit_lines (heap s) ind (preorder 0 t)\<rparr>)"
  using display_tree_aux[of s t room ind 0] by (simp add: spaces_def)

subsection \<open>The nodes of a tree are the objects reached from its root\<close>

lemma reach_trans: "reach h b c \<Longrightarrow> reach h a b \<Longrightarrow> reach h a c"
  by (induction rule: reach.induct) (auto intro: reach.intros)

lemma preorder_root: "(root t, d) \<in> set (preorder d t)"
  by (cases t) simp_all

lemma preorder_reach:
  "represents h t \<Longrightarrow> (x, k) \<in> set (preorder d t) \<Longrightarrow> reach h (root t) x"
proof (induction t arbitrary: d)
  case (Leaf r n)
  then show ?case by (auto intro: reach.intros)
next
  case (Node r n ts)
  show ?case
  proof (cases "x = r")
    case True
    then show ?thesis by (auto intro: reach.intros)
  next
    case False
    with Node.prems obtain u where u: "u \<in> set ts" and xu: "(x, k) \<in> set (preorder (Suc d) u)"
      by auto
    from Node.prems u have "represents h u" by (simp add: list_all_iff)
    from Node.IH[OF u this xu] have "reach h (root u) x" .
    moreover have "reach h r (root u)"
      using Node.prems u by (auto intro!: reach_child[OF reach_root])
    ultimately show ?thesis by (simp add: reach_trans)
  qed
qed

lemma preorder_children:
  "represents h t \<Longrightarrow> p \<in> fst ` set (preorder d t) \<Longrightarrow> h p = Some (Folder n cs) \<Longrightarrow>
   x \<in> set cs \<Longrightarrow> x \<in> fst ` set (preorder d t)"
proof (induction t arbitrary: d)
  case (Leaf r n')
  then show ?case by simp
next
  case (Node r n' ts)
  show ?case
  proof (cases "p = r")
    case True
    with Node.prems have "cs = map root ts" by simp
    with Node.prems obtain u where "u \<in> set ts" "x = root u" by auto
    then show ?thesis using preorder_root[of u "Suc d"] by (force)
  next
    case False
    with Node.prems obtain u where u: "u \<in> set ts" and pu: "p \<in> fst ` set (preorder (Suc d) u)"
      by auto
    from Node.prems u have "represents h u" by (simp add: list_all_iff)
    from Node.IH[OF u this pu Node.prems(3,4)] u show ?thesis by auto
  qed
qed

lemma reach_preorder:
  "reach h (root t) x \<Longrightarrow> represents h t \<Longrightarrow> x \<in> fst ` set (preorder d t)"
proof (induction rule: reach.induct)
  case reach_root
  then show ?case using preorder_root[of t d] by force
next
  case (reach_child p n cs x)
  then show ?case using preorder_children by blast
qed

lemma reach_iff_preorder:
  "represents h t \<Longrightarrow> reach h (root t) x \<longleftrightarrow> x \<in> set (map fst (preorder d t))"
  using reach_preorder[of h t x d] preorder_reach[of h t x _ d] by auto

lemma count_list_distinct:
  "distinct xs \<Longrightarrow> count_list xs x = (if x \<in> set xs then 1 else 0)"
  by (induction xs) auto

section \<open>Properties\<close>

subsection \<open>Traversal\<close>

text \<open>
  C1. Let the store hold a tree \<open>t\<close> below a reference (no object occurs twice in the
  unfolding), and let the call stack have room for the height of \<open>t\<close>. Then \<open>display\<close> on
  the root returns, and what it appends to the console is one line per node of \<open>t\<close>, in
  pre-order (parent before children, children in sequence order), the line of a node at
  depth \<open>d\<close> being the given indentation, then \<open>d\<close> times two spaces, then the node's label.
  The nodes visited are exactly the objects reachable from the root, each one once.
  For a Folder the call prints the header line \<open>indentation\<close>\<open>+ Folder: \<close>\<open>name\<close> and then
  calls \<open>display\<close> with two more spaces on each child in sequence order.
\<close>

theorem display_visits_preorder:
  assumes "represents (heap s) t"
    and "distinct (map fst (preorder 0 t))"
    and "height t \<le> room"
  shows "display room (root t) (Some ind) s =
           Inr (s\<lparr>console := console s @
                  map (\<lambda>(r, d). ind @ spaces d @ label (heap s) r) (preorder 0 t)\<rparr>) \<and>
         (\<forall>x. count_list (map fst (preorder 0 t)) x =
                (if reach (heap s) (root t) x then 1 else 0)) \<and>
         (\<forall>n ts. t = Node (root t) n ts \<longrightarrow>
            display room (root t) (Some ind) s =
              forEach (map root ts) (\<lambda>child. display (room - 1) child (Some (ind @ ''  '')))
                (console_log (ind @ ''+ Folder: '' @ n) s))"
proof (intro conjI allI impI)
  show "display room (root t) (Some ind) s =
      Inr (s\<lparr>console := console s @
             map (\<lambda>(r, d). ind @ spaces d @ label (heap s) r) (preorder 0 t)\<rparr>)"
    using display_tree[OF assms(1,3)] by (simp add: visit_lines_def)
next
  fix x
  show "count_list (map fst (preorder 0 t)) x = (if reach (heap s) (root t) x then 1 else 0)"
    using count_list_distinct[OF assms(2)] reach_iff_preorder[OF assms(1), of x 0] by simp
next
  fix n ts
  assume t: "t = Node (root t) n ts"
  with assms(3) obtain k where k: "room = Suc k"
    by (cases room) (metis height.simps(2) not_less_eq_eq le0, blast)
  from t assms(1) have "heap s (root t) = Some (Folder n (map root ts))"
    by (metis represents.simps(2))
  then show "display room (root t) (Some ind) s =
      forEach (map root ts) (\<lambda>child. display (room - 1) child (Some (ind @ ''  '')))
        (console_log (ind @ ''+ Folder: '' @ n) s)"
    by (simp add: k Folder_display_def default_arg_def)
qed

theorem display_visits_preorder_witness:
  "represents [0 \<mapsto> Folder ''d'' [1, 2], 1 \<mapsto> File ''a'', 2 \<mapsto> Folder ''e'' [3], 3 \<mapsto> File ''b'']
     (Node 0 ''d'' [Leaf 1 ''a'', Node 2 ''e'' [Leaf 3 ''b'']]) \<and>
   distinct (map fst (preorder 0 (Node 0 ''d'' [Leaf 1 ''a'', Node 2 ''e'' [Leaf 3 ''b'']]))) \<and>
   height (Node 0 ''d'' [Leaf 1 ''a'', Node 2 ''e'' [Leaf 3 ''b'']]) \<le> 3 \<and>
   display 3 0 (Some ''> '')
     \<lparr>heap = [0 \<mapsto> Folder ''d'' [1, 2], 1 \<mapsto> File ''a'', 2 \<mapsto> Folder ''e'' [3], 3 \<mapsto> File ''b''],
      next_ref = 4, console = []\<rparr> =
   Inr \<lparr>heap = [0 \<mapsto> Folder ''d'' [1, 2], 1 \<mapsto> File ''a'', 2 \<mapsto> Folder ''e'' [3], 3 \<mapsto> File ''b''],
        next_ref = 4,
        console = [''> + Folder: d'', ''>   - File: a'', ''>   + Folder: e'', ''>     - File: b'']\<rparr>"
proof -
  let ?h = "[0 \<mapsto> Folder ''d'' [1, 2], 1 \<mapsto> File ''a'', 2 \<mapsto> Folder ''e'' [3], 3 \<mapsto> File ''b'']
              :: ref \<rightharpoonup> obj"
  let ?t = "Node 0 ''d'' [Leaf 1 ''a'', Node 2 ''e'' [Leaf 3 ''b'']]"
  let ?s = "\<lparr>heap = ?h, next_ref = 4, console = []\<rparr>"
  have a: "represents (heap ?s) ?t" by simp
  have b: "distinct (map fst (preorder 0 ?t))" by simp
  have c: "height ?t \<le> 3" by simp
  show ?thesis
    using a b c display_visits_preorder[OF a b c, of "''> ''"]
    by (simp add: spaces_def label_def)
qed

subsection \<open>Removal and insertion\<close>

text \<open>
  C2. Let \<open>f\<close> be a Folder with child sequence \<open>cs\<close>. If \<open>x\<close> occurs in \<open>cs\<close>, \<open>remove(x)\<close>
  takes out its first occurrence and nothing else: with \<open>cs = ys @ x # zs\<close> and \<open>x\<close> not in
  \<open>ys\<close>, the children become \<open>ys @ zs\<close>. Children are references, so the comparison is by
  identity. If \<open>x\<close> does not occur in \<open>cs\<close>, the call returns without an error and leaves
  the whole state as it was, so that any \<open>display\<close> after it does what it would have done
  without it.
\<close>

theorem remove_child_first_occurrence:
  assumes "heap s f = Some (Folder n cs)"
  shows "(x \<in> set cs \<longrightarrow>
            (\<exists>ys zs. cs = ys @ x # zs \<and> x \<notin> set ys \<and>
               remove_child f x s = Inr (s\<lparr>heap := (heap s)(f \<mapsto> Folder n (ys @ zs))\<rparr>))) \<and>
         (x \<notin> set cs \<longrightarrow>
            remove_child f x s = Inr s \<and>
            and_then (remove_child f x s) (display room this ind) = display room this ind s)"
proof (intro conjI impI)
  assume mem: "x \<in> set cs"
  then obtain ys zs where split: "cs = ys @ x # zs" "x \<notin> set ys"
    by (auto dest: split_list_first)
  have "remove_child f x s = Inr (s\<lparr>heap := (heap s)(f \<mapsto> Folder n (remove1 x cs))\<rparr>)"
    using assms mem by (simp add: remove_child_def Let_def indexOf_present splice_indexOf)
  with split show "\<exists>ys zs. cs = ys @ x # zs \<and> x \<notin> set ys \<and>
      remove_child f x s = Inr (s\<lparr>heap := (heap s)(f \<mapsto> Folder n (ys @ zs))\<rparr>)"
    by (auto simp: remove1_first)
next
  assume "x \<notin> set cs"
  then show noop: "remove_child f x s = Inr s"
    using assms by (simp add: remove_child_def Let_def indexOf_absent)
  then show "and_then (remove_child f x s) (display room this ind) = display room this ind s"
    by (simp add: and_then_def)
qed

text \<open>
  At a Folder whose children are the Files 1, 2 and again 1, all named \<open>a\<close>: removing 1
  leaves 2 and 1, and removing the File 3, which has the same name but was never added,
  changes nothing.
\<close>

theorem remove_child_first_occurrence_witness:
  "heap \<lparr>heap = [0 \<mapsto> Folder ''d'' [1, 2, 1], 1 \<mapsto> File ''a'', 2 \<mapsto> File ''a'', 3 \<mapsto> File ''a''],
         next_ref = 4, console = []\<rparr> 0 = Some (Folder ''d'' [1, 2, 1]) \<and>
   (1::ref) \<in> set [1, 2, 1] \<and> (3::ref) \<notin> set [1, 2, 1] \<and>
   (\<exists>ys zs. [1, 2, 1] = ys @ (1::ref) # zs \<and> 1 \<notin> set ys \<and> ys @ zs = [2, 1] \<and>
      remove_child 0 1
        \<lparr>heap = [0 \<mapsto> Folder ''d'' [1, 2, 1], 1 \<mapsto> File ''a'', 2 \<mapsto> File ''a'', 3 \<mapsto> File ''a''],
         next_ref = 4, console = []\<rparr> =
      Inr \<lparr>heap = [0 \<mapsto> Folder ''d'' [1, 2, 1], 1 \<mapsto> File ''a'', 2 \<mapsto> File ''a'',
                   3 \<mapsto> File ''a'', 0 \<mapsto> Folder ''d'' (ys @ zs)],
           next_ref = 4, console = []\<rparr>) \<and>
   remove_child 0 3
     \<lparr>heap = [0 \<mapsto> Folder ''d'' [1, 2, 1], 1 \<mapsto> File ''a'', 2 \<mapsto> File ''a'', 3 \<mapsto> File ''a''],
      next_ref = 4, console = []\<rparr> =
   Inr \<lparr>heap = [0 \<mapsto> Folder ''d'' [1, 2, 1], 1 \<mapsto> File ''a'', 2 \<mapsto> File ''a'', 3 \<mapsto> File ''a''],
        next_ref = 4, console = []\<rparr>"
proof -
  let ?s = "\<lparr>heap = [0 \<mapsto> Folder ''d'' [1, 2, 1], 1 \<mapsto> File ''a'', 2 \<mapsto> File ''a'',
                      3 \<mapsto> File ''a''],
             next_ref = 4, console = []\<rparr>"
  have h: "heap ?s 0 = Some (Folder ''d'' [1, 2, 1])" by simp
  from remove_child_first_occurrence[OF h, of 1]
  obtain ys zs where split: "[1, 2, 1] = ys @ (1::ref) # zs" "1 \<notin> set ys"
    and rm: "remove_child 0 1 ?s = Inr (?s\<lparr>heap := (heap ?s)(0 \<mapsto> Folder ''d'' (ys @ zs))\<rparr>)"
    by auto
  from split have "ys = []" by (cases ys) auto
  with split have "ys @ zs = [2, 1]" by simp
  with split rm have present: "\<exists>ys zs. [1, 2, 1] = ys @ (1::ref) # zs \<and> 1 \<notin> set ys \<and>
      ys @ zs = [2, 1] \<and>
      remove_child 0 1 ?s = Inr (?s\<lparr>heap := (heap ?s)(0 \<mapsto> Folder ''d'' (ys @ zs))\<rparr>)"
    by blast
  have absent: "remove_child 0 3 ?s = Inr ?s"
    using remove_child_first_occurrence[OF h, of 3] by simp
  show ?thesis using h present absent by simp
qed

text \<open>
  C3. Let \<open>f\<close> be a Folder with child sequence \<open>cs\<close> and \<open>x\<close> a component that is not in
  \<open>cs\<close>. Then \<open>f.add(x)\<close> succeeds and makes the children \<open>cs @ [x]\<close>, and \<open>f.remove(x)\<close>
  right after it succeeds and gives back the state before the \<open>add\<close>, in which the children
  of \<open>f\<close> are \<open>cs\<close>.
\<close>

theorem add_remove_round_trip:
  assumes "heap s f = Some (Folder n cs)" and "x \<notin> set cs"
  shows "\<exists>s1. add f x s = Inr s1 \<and> heap s1 f = Some (Folder n (cs @ [x])) \<and>
              remove_child f x s1 = Inr s"
proof -
  let ?s1 = "s\<lparr>heap := (heap s)(f \<mapsto> Folder n (cs @ [x]))\<rparr>"
  have a: "add f x s = Inr ?s1"
    using assms by (simp add: add_def push_def)
  have h1: "heap ?s1 f = Some (Folder n (cs @ [x]))" by simp
  have restored: "?s1\<lparr>heap := (heap ?s1)(f \<mapsto> Folder n cs)\<rparr> = s"
    using assms(1) by (simp add: fun_upd_idem)
  have "remove_child f x ?s1 =
      Inr (?s1\<lparr>heap := (heap ?s1)(f \<mapsto> Folder n (remove1 x (cs @ [x])))\<rparr>)"
    unfolding remove_child_def h1 by (simp add: Let_def indexOf_present splice_indexOf)
  also have "remove1 x (cs @ [x]) = cs"
    using assms(2) by (simp add: remove1_append)
  finally have r: "remove_child f x ?s1 = Inr s"
    unfolding restored .
  from a h1 r show ?thesis by blast
qed

theorem add_remove_round_trip_witness:
  "heap \<lparr>heap = [0 \<mapsto> Folder ''d'' [1], 1 \<mapsto> File ''a'', 2 \<mapsto> File ''b''],
         next_ref = 3, console = []\<rparr> 0 = Some (Folder ''d'' [1]) \<and>
   (2::ref) \<notin> set [1] \<and>
   and_then
     (add 0 2 \<lparr>heap = [0 \<mapsto> Folder ''d'' [1], 1 \<mapsto> File ''a'', 2 \<mapsto> File ''b''],
               next_ref = 3, console = []\<rparr>)
     (remove_child 0 2) =
   Inr \<lparr>heap = [0 \<mapsto> Folder ''d'' [1], 1 \<mapsto> File ''a'', 2 \<mapsto> File ''b''],
        next_ref = 3, console = []\<rparr>"
proof -
  let ?s = "\<lparr>heap = [0 \<mapsto> Folder ''d'' [1], 1 \<mapsto> File ''a'', 2 \<mapsto> File ''b''],
             next_ref = 3, console = []\<rparr>"
  have h: "heap ?s 0 = Some (Folder ''d'' [1])" by simp
  have x: "(2::ref) \<notin> set [1]" by simp
  from add_remove_round_trip[OF h x]
  have "and_then (add 0 2 ?s) (remove_child 0 2) = Inr ?s"
    by (auto simp: and_then_def)
  with h x show ?thesis by simp
qed

subsection \<open>The demonstration of the client code\<close>

lemmas client_defs =
  client_build_def client_before_def client_after_def printed_def init_state_def
  new_File_def new_Folder_def add_def push_def remove_child_def indexOf_def splice_arr_def
  and_then_def console_log_def File_display_def Folder_display_def default_arg_def Let_def

text \<open>
  C4. For the tree of the script (Root holding Documents with file1.txt, file2.txt and
  file4.txt, and Images with file3.txt), \<open>display()\<close> on the root prints seven lines, two
  spaces of indentation per level: the root at depth 0, the two folders at depth 1 and the
  four files at depth 2. The line of file3.txt is indented by four spaces as the other
  files are, not by six. The call stack needs room for three nested calls.
\<close>

theorem demo_display_before_removal:
  "printed (and_then client_build (client_before (Suc (Suc (Suc room))))) =
     Inr [''=== File System Before Removal ==='',
          ''+ Folder: Root'',
          ''  + Folder: Documents'',
          ''    - File: file1.txt'',
          ''    - File: file2.txt'',
          ''    - File: file4.txt'',
          ''  + Folder: Images'',
          ''    - File: file3.txt''] \<and>
   (\<exists>v s. client_build = Inr (v, s) \<and> console s = [] \<and>
      display (Suc (Suc (Suc room))) (rootFolder v) None s =
        Inr (s\<lparr>console :=
               [''+ Folder: Root'',
                ''  + Folder: Documents'',
                ''    - File: file1.txt'',
                ''    - File: file2.txt'',
                ''    - File: file4.txt'',
                ''  + Folder: Images'',
                ''    - File: file3.txt'']\<rparr>))"
  by (simp add: client_defs)

text \<open>The seven lines with the last one indented by six spaces are not what is printed.\<close>

theorem demo_display_six_spaces_counterexample:
  "printed (and_then client_build (client_before 3)) \<noteq>
     Inr [''=== File System Before Removal ==='',
          ''+ Folder: Root'',
          ''  + Folder: Documents'',
          ''    - File: file1.txt'',
          ''    - File: file2.txt'',
          ''    - File: file4.txt'',
          ''  + Folder: Images'',
          ''      - File: file3.txt'']"
  by (simp add: client_defs numeral_3_eq_3)

text \<open>
  C5. After \<open>folder1.remove(file4)\<close> the second \<open>display()\<close> on the root prints the lines of
  the first one without the line of file4.txt: the six other lines, each with the content
  and the indentation it had, in the order they had.
\<close>

theorem demo_display_after_removal:
  "printed (and_then (and_then client_build (client_before (Suc (Suc (Suc room)))))
                     (client_after (Suc (Suc (Suc room))))) =
     Inr ([''=== File System Before Removal ===''] @
          [''+ Folder: Root'',
           ''  + Folder: Documents'',
           ''    - File: file1.txt'',
           ''    - File: file2.txt'',
           ''    - File: file4.txt'',
           ''  + Folder: Images'',
           ''    - File: file3.txt''] @
          [''File System After Removal of file4.txt''] @
          remove1 ''    - File: file4.txt''
            [''+ Folder: Root'',
             ''  + Folder: Documents'',
             ''    - File: file1.txt'',
             ''    - File: file2.txt'',
             ''    - File: file4.txt'',
             ''  + Folder: Images'',
             ''    - File: file3.txt'']) \<and>
   remove1 ''    - File: file4.txt''
     [''+ Folder: Root'',
      ''  + Folder: Documents'',
      ''    - File: file1.txt'',
      ''    - File: file2.txt'',
      ''    - File: file4.txt'',
      ''  + Folder: Images'',
      ''    - File: file3.txt''] =
     [''+ Folder: Root'',
      ''  + Folder: Documents'',
      ''    - File: file1.txt'',
      ''    - File: file2.txt'',
      ''  + Folder: Images'',
      ''    - File: file3.txt'']"
  by (simp add: client_defs)

subsection \<open>Leaves, insertion order and empty folders\<close>

text \<open>
  C6. A File constructed with name \<open>n\<close> is an object \<open>File n\<close> of the store, and for every
  such object and every indentation \<open>i\<close>, \<open>display(i)\<close> prints exactly one line, \<open>i\<close>
  followed by \<open>- File: \<close> and \<open>n\<close>, and nothing else: the state after the call is the state
  before it with that line appended to the console.
\<close>

theorem File_display_one_line:
  "heap (snd (new_File n s0)) (fst (new_File n s0)) = Some (File n) \<and>
   (heap s this = Some (File n) \<longrightarrow>
      display (Suc room) this (Some i) s =
        Inr (s\<lparr>console := console s @ [i @ ''- File: '' @ n]\<rparr>))"
  by (simp add: new_File_def File_display_def default_arg_def console_log_def)

theorem File_display_one_line_witness:
  "heap (snd (new_File ''a.txt'' init_state)) 0 = Some (File ''a.txt'') \<and>
   display (Suc 0) 0 (Some ''  '') (snd (new_File ''a.txt'' init_state)) =
     Inr ((snd (new_File ''a.txt'' init_state))\<lparr>console := [''  - File: a.txt'']\<rparr>)"
proof -
  have h: "heap (snd (new_File ''a.txt'' init_state)) 0 = Some (File ''a.txt'')"
    by (simp add: new_File_def init_state_def)
  show ?thesis
    using h File_display_one_line[of "''a.txt''" init_state
        "snd (new_File ''a.txt'' init_state)" 0 0 "''  ''"]
    by (simp add: new_File_def init_state_def)
qed

text \<open>
  C7. For a Folder \<open>f\<close> with child sequence \<open>cs\<close>, \<open>f.add(x)\<close> succeeds and makes the
  children \<open>cs @ [x]\<close>. After \<open>add(a)\<close>, \<open>add(b)\<close>, \<open>add(c)\<close> the children are
  \<open>cs @ [a, b, c]\<close>, and \<open>display\<close> on \<open>f\<close> prints the header, displays the earlier children,
  then \<open>a\<close>, then \<open>b\<close>, then \<open>c\<close>, whatever objects \<open>a\<close>, \<open>b\<close> and \<open>c\<close> refer to.
\<close>

theorem add_appends_in_order:
  assumes "heap s f = Some (Folder n cs)"
  shows "add f x s = Inr (s\<lparr>heap := (heap s)(f \<mapsto> Folder n (cs @ [x]))\<rparr>) \<and>
    (\<exists>s3. and_then (add f a s) (\<lambda>s1. and_then (add f b s1) (add f c)) = Inr s3 \<and>
       heap s3 f = Some (Folder n (cs @ [a, b, c])) \<and>
       display (Suc room) f (Some i) s3 =
         and_then (forEach cs (\<lambda>child. display room child (Some (i @ ''  '')))
                     (console_log (i @ ''+ Folder: '' @ n) s3)) (\<lambda>s4.
         and_then (display room a (Some (i @ ''  '')) s4) (\<lambda>s5.
         and_then (display room b (Some (i @ ''  '')) s5)
                  (display room c (Some (i @ ''  ''))))))"
proof -
  have one: "add f x s = Inr (s\<lparr>heap := (heap s)(f \<mapsto> Folder n (cs @ [x]))\<rparr>)"
    using assms by (simp add: add_def push_def)
  let ?s3 = "s\<lparr>heap := (heap s)(f \<mapsto> Folder n (cs @ [a, b, c]))\<rparr>"
  have three: "and_then (add f a s) (\<lambda>s1. and_then (add f b s1) (add f c)) = Inr ?s3"
    using assms by (simp add: add_def push_def and_then_def)
  have h3: "heap ?s3 f = Some (Folder n (cs @ [a, b, c]))" by simp
  have "display (Suc room) f (Some i) ?s3 =
      forEach (cs @ [a, b, c]) (\<lambda>child. display room child (Some (i @ ''  '')))
        (console_log (i @ ''+ Folder: '' @ n) ?s3)"
    by (simp add: Folder_display_def default_arg_def)
  also have "\<dots> = and_then (forEach cs (\<lambda>child. display room child (Some (i @ ''  '')))
                     (console_log (i @ ''+ Folder: '' @ n) ?s3)) (\<lambda>s4.
         and_then (display room a (Some (i @ ''  '')) s4) (\<lambda>s5.
         and_then (display room b (Some (i @ ''  '')) s5)
                  (display room c (Some (i @ ''  '')))))"
    unfolding forEach_append
    by (rule arg_cong[where f = "and_then _"])
      (auto simp: and_then_def fun_eq_iff split: sum.splits)
  finally show ?thesis using one three h3 by blast
qed

text \<open>
  A new Folder receives a File, a Folder and a File, in this order, and prints them in
  this order.
\<close>

theorem add_appends_in_order_witness:
  "heap \<lparr>heap = [0 \<mapsto> Folder ''d'' [], 1 \<mapsto> File ''a'', 2 \<mapsto> Folder ''b'' [], 3 \<mapsto> File ''c''],
         next_ref = 4, console = []\<rparr> 0 = Some (Folder ''d'' []) \<and>
   map_sum id console
     (and_then
        (and_then
           (add 0 1 \<lparr>heap = [0 \<mapsto> Folder ''d'' [], 1 \<mapsto> File ''a'', 2 \<mapsto> Folder ''b'' [],
                             3 \<mapsto> File ''c''],
                     next_ref = 4, console = []\<rparr>)
           (\<lambda>s1. and_then (add 0 2 s1) (add 0 3)))
        (display 2 0 (Some ''''))) =
   Inr [''+ Folder: d'', ''  - File: a'', ''  + Folder: b'', ''  - File: c'']"
proof -
  let ?s = "\<lparr>heap = [0 \<mapsto> Folder ''d'' [], 1 \<mapsto> File ''a'', 2 \<mapsto> Folder ''b'' [],
                      3 \<mapsto> File ''c''],
             next_ref = 4, console = []\<rparr>"
  have h: "heap ?s 0 = Some (Folder ''d'' [])" by simp
  show ?thesis
    using h add_appends_in_order[OF h, of 1 1 2 3 "Suc 0" "''''"]
    by (simp add: add_def push_def and_then_def numeral_2_eq_2 console_log_def
        File_display_def Folder_display_def default_arg_def)
qed

text \<open>
  C8. A newly constructed Folder has no children. For a Folder without children,
  \<open>display(i)\<close> prints only the header line \<open>i\<close>\<open>+ Folder: \<close>\<open>name\<close>: the result does not
  depend on what displaying a child would do, and the call returns even when the call
  stack has room for no nested call, so no child is displayed.
\<close>

theorem empty_Folder_display:
  "heap (snd (new_Folder n s0)) (fst (new_Folder n s0)) = Some (Folder n []) \<and>
   Folder_display child_display n [] (Some i) s = Inr (console_log (i @ ''+ Folder: '' @ n) s) \<and>
   (heap s this = Some (Folder n []) \<longrightarrow>
      display (Suc room) this (Some i) s =
        Inr (s\<lparr>console := console s @ [i @ ''+ Folder: '' @ n]\<rparr>))"
  by (simp add: new_Folder_def Folder_display_def default_arg_def console_log_def)

theorem empty_Folder_display_witness:
  "heap (snd (new_Folder ''tmp'' init_state)) 0 = Some (Folder ''tmp'' []) \<and>
   display (Suc 0) 0 (Some ''  '') (snd (new_Folder ''tmp'' init_state)) =
     Inr ((snd (new_Folder ''tmp'' init_state))\<lparr>console := [''  + Folder: tmp'']\<rparr>)"
proof -
  have h: "heap (snd (new_Folder ''tmp'' init_state)) 0 = Some (Folder ''tmp'' [])"
    by (simp add: new_Folder_def init_state_def)
  show ?thesis
    using h empty_Folder_display[of "''tmp''" init_state "\<lambda>child ind s. Inl TypeError" "''  ''"
        "snd (new_Folder ''tmp'' init_state)" 0 0]
    by (simp add: new_Folder_def init_state_def)
qed

subsection \<open>Display only prints\<close>

text \<open>
  C9. Whenever a \<open>display\<close> call returns, the store is as before (no name and no child
  sequence has changed, no object was created), the console has grown by some lines, and
  the same call made again right after it returns and appends the same lines once more.
  On every tree that the call stack has room for, the call does return.
\<close>

theorem display_output_only:
  "(display room this ind s = Inr s1 \<longrightarrow>
      heap s1 = heap s \<and> next_ref s1 = next_ref s \<and>
      (\<exists>lines. console s1 = console s @ lines \<and>
         display room this ind s1 = Inr (s1\<lparr>console := console s1 @ lines\<rparr>))) \<and>
   (represents (heap s) t \<and> height t \<le> room \<longrightarrow>
      (\<exists>s'. display room (root t) ind s = Inr s'))"
proof (intro conjI impI)
  assume run: "display room this ind s = Inr s1"
  from display_frame[OF run] obtain ls where
    s1: "s1 = s\<lparr>console := console s @ ls\<rparr>"
    and again: "\<And>s2. heap s2 = heap s \<Longrightarrow>
        display room this ind s2 = Inr (s2\<lparr>console := console s2 @ ls\<rparr>)"
    by blast
  from s1 show "heap s1 = heap s" and "next_ref s1 = next_ref s" by simp_all
  from s1 have "console s1 = console s @ ls" by simp
  moreover from s1 have "heap s1 = heap s" by simp
  then have "display room this ind s1 = Inr (s1\<lparr>console := console s1 @ ls\<rparr>)"
    by (rule again)
  ultimately show "\<exists>lines. console s1 = console s @ lines \<and>
      display room this ind s1 = Inr (s1\<lparr>console := console s1 @ lines\<rparr>)"
    by blast
next
  assume "represents (heap s) t \<and> height t \<le> room"
  then have "display room (root t) (Some (default_arg [] ind)) s =
      Inr (s\<lparr>console := console s @ visit_lines (heap s) (default_arg [] ind) (preorder 0 t)\<rparr>)"
    by (simp add: display_tree)
  then show "\<exists>s'. display room (root t) ind s = Inr s'"
    by (cases ind) (simp_all add: display_None default_arg_def)
qed

theorem display_output_only_witness:
  "display 2 0 None \<lparr>heap = [0 \<mapsto> Folder ''d'' [1], 1 \<mapsto> File ''a''], next_ref = 2, console = [''x'']\<rparr>
     = Inr \<lparr>heap = [0 \<mapsto> Folder ''d'' [1], 1 \<mapsto> File ''a''], next_ref = 2,
            console = [''x'', ''+ Folder: d'', ''  - File: a'']\<rparr> \<and>
   represents [0 \<mapsto> Folder ''d'' [1], 1 \<mapsto> File ''a''] (Node 0 ''d'' [Leaf 1 ''a'']) \<and>
   height (Node 0 ''d'' [Leaf 1 ''a'']) \<le> 2 \<and>
   (\<exists>lines. [''x'', ''+ Folder: d'', ''  - File: a''] = [''x''] @ lines \<and>
      display 2 0 None \<lparr>heap = [0 \<mapsto> Folder ''d'' [1], 1 \<mapsto> File ''a''], next_ref = 2,
                        console = [''x'', ''+ Folder: d'', ''  - File: a'']\<rparr>
        = Inr \<lparr>heap = [0 \<mapsto> Folder ''d'' [1], 1 \<mapsto> File ''a''], next_ref = 2,
               console = [''x'', ''+ Folder: d'', ''  - File: a''] @ lines\<rparr>)"
proof -
  let ?h = "[0 \<mapsto> Folder ''d'' [1], 1 \<mapsto> File ''a''] :: ref \<rightharpoonup> obj"
  let ?s = "\<lparr>heap = ?h, next_ref = 2, console = [''x'']\<rparr>"
  let ?s1 = "\<lparr>heap = ?h, next_ref = 2, console = [''x'', ''+ Folder: d'', ''  - File: a'']\<rparr>"
  have run: "display 2 0 None ?s = Inr ?s1"
    by (simp add: numeral_2_eq_2 Folder_display_def File_display_def default_arg_def
        console_log_def)
  have tree: "represents (heap ?s) (Node 0 ''d'' [Leaf 1 ''a'']) \<and>
      height (Node 0 ''d'' [Leaf 1 ''a'']) \<le> 2"
    by simp
  show ?thesis
    using run tree display_output_only[of 2 0 None ?s ?s1 "Node 0 ''d'' [Leaf 1 ''a'']"]
    by simp
qed

text \<open>
  C10. For a File, for a Folder and for the call through the interface, \<open>display()\<close>
  without an argument does what \<open>display("")\<close> does: the indentation defaults to the empty
  string, so a display of the root starts without indentation.
\<close>

theorem display_default_indentation:
  "File_display n None s = File_display n (Some []) s \<and>
   Folder_display child_display n cs None s = Folder_display child_display n cs (Some []) s \<and>
   display room this None s = display room this (Some []) s"
  by (simp add: display_None File_display_def Folder_display_def default_arg_def)

end
